theory Spec2Isabelle
  imports Main "HOL-Library.Word"
begin

section \<open>VTIL-Common/io/formatting.hpp: string formatting and value stringification\<close>

text \<open>
  A narrow string (\<^verbatim>\<open>std::string\<close>) is a \<^typ>\<open>string\<close>, a list of 8-bit characters.
  A wide string is a list of code units \<^typ>\<open>'w word\<close>, where \<open>'w\<close> is the width of the
  platform's \<^verbatim>\<open>wchar_t\<close>. A 64-bit integer is a \<^typ>\<open>64 word\<close>; \<^term>\<open>sint\<close> reads it as
  \<^verbatim>\<open>int64_t\<close> and \<^term>\<open>unat\<close> as \<^verbatim>\<open>unsigned long long\<close>.
\<close>

subsection \<open>\<^verbatim>\<open>impl::buffer_string\<close> (lines 73-83)\<close>

text \<open>
  The two \<^verbatim>\<open>static thread_local\<close> variables of one instantiation on one thread:
  \<^verbatim>\<open>std::basic_string<T> ring_buffer[ 16 ]\<close> and \<^verbatim>\<open>int index = 0\<close>.
\<close>

record ring =
  ring_buffer :: "string list"
  index :: int

definition ring_init :: ring where
  "ring_init = \<lparr>ring_buffer = replicate 16 [], index = 0\<rparr>"

text \<open>
  \<^verbatim>\<open>auto& ref = ring_buffer[ index ]; ref = std::move( value );\<close>
  \<^verbatim>\<open>index = ++index % std::size( ring_buffer ); return ref.data();\<close>

  The returned pointer is modelled by the number of the slot whose data it points to; what
  a caller reads through it later is the content of that slot in the later state. Indexing
  the array outside its bounds is undefined and gives \<open>None\<close>. The remainder is taken
  after the conversion of the incremented \<^verbatim>\<open>int\<close> to \<^verbatim>\<open>size_t\<close>.
\<close>

definition buffer_string :: "string \<Rightarrow> ring \<Rightarrow> (nat \<times> ring) option" where
  "buffer_string v st =
     (if 0 \<le> index st \<and> nat (index st) < length (ring_buffer st) then
        let slot = nat (index st);
            rb = (ring_buffer st)[slot := v];
            idx = ((index st + 1) mod 2 ^ 64) mod int (length (ring_buffer st))
        in Some (slot, \<lparr>ring_buffer = rb, index = idx\<rparr>)
      else None)"

text \<open>A sequence of calls on one thread, each starting in the state the previous one left.\<close>

fun buffer_strings :: "string list \<Rightarrow> ring \<Rightarrow> ring option" where
  "buffer_strings [] st = Some st"
| "buffer_strings (v # vs) st =
     (case buffer_string v st of None \<Rightarrow> None | Some (p, st') \<Rightarrow> buffer_strings vs st')"

subsection \<open>\<^verbatim>\<open>impl::fix_type_name\<close> (lines 87-106)\<close>

text \<open>\<^verbatim>\<open>in.starts_with( str )\<close>\<close>

definition starts_with :: "string \<Rightarrow> string \<Rightarrow> bool" where
  "starts_with s p = (take (length p) s = p)"

definition remove_list :: "string list" where
  "remove_list = [''struct '', ''class '', ''enum '', ''vtil::'']"

text \<open>
  The inner loop, from position \<open>i\<close> on:
  \<^verbatim>\<open>for ( size_t i = 0; i < in.size(); i++ )\<close>
  \<^verbatim>\<open>  if ( in[ i ] == '<' && in.substr( i + 1 ).starts_with( str ) )\<close>
  \<^verbatim>\<open>    in = in.substr( 0, i + 1 ) + in.substr( i + 1 + strlen( str ) );\<close>
  The string is updated in place and the scan goes on at \<open>i + 1\<close> in the updated string.
\<close>

function strip_nested :: "string \<Rightarrow> string \<Rightarrow> nat \<Rightarrow> string" where
  "strip_nested str s i =
     (if i < length s then
        (if s ! i = CHR ''<'' \<and> starts_with (drop (i + 1) s) str
         then strip_nested str (take (i + 1) s @ drop (i + 1 + length str) s) (i + 1)
         else strip_nested str s (i + 1))
      else s)"
  by pat_completeness auto
termination
  by (relation "measure (\<lambda>(str, s, i). length s - i)") auto

declare strip_nested.simps [simp del]

lemma strip_nested_done: "\<not> i < length s \<Longrightarrow> strip_nested str s i = s"
  by (subst strip_nested.simps) simp

lemma strip_nested_hit:
  "i < length s \<Longrightarrow> s ! i = CHR ''<'' \<Longrightarrow> starts_with (drop (i + 1) s) str \<Longrightarrow>
   strip_nested str s i = strip_nested str (take (i + 1) s @ drop (i + 1 + length str) s) (i + 1)"
  by (subst strip_nested.simps) simp

lemma strip_nested_miss:
  "i < length s \<Longrightarrow> \<not> (s ! i = CHR ''<'' \<and> starts_with (drop (i + 1) s) str) \<Longrightarrow>
   strip_nested str s i = strip_nested str s (i + 1)"
  by (subst strip_nested.simps) auto

lemma length_strip_nested: "length (strip_nested str s i) \<le> length s"
proof (induction str s i rule: strip_nested.induct)
  case (1 str s i)
  show ?case
  proof (cases "i < length s")
    case False
    then show ?thesis by (simp add: strip_nested_done)
  next
    case inb: True
    show ?thesis
    proof (cases "s ! i = CHR ''<'' \<and> starts_with (drop (i + 1) s) str")
      case True
      with inb 1(1)
      have "length (strip_nested str s i)
              \<le> length (take (i + 1) s @ drop (i + 1 + length str) s)"
        by (simp add: strip_nested_hit)
      also have "\<dots> \<le> length s" by simp
      finally show ?thesis .
    next
      case False
      with inb 1(2) show ?thesis by (simp add: strip_nested_miss)
    qed
  qed
qed

text \<open>
  The outer loop \<^verbatim>\<open>for ( const char* str : remove_list )\<close>, from entry \<open>k\<close> of the list on.
  A leading match returns the recursive call on the rest of the string, which starts again
  at the first entry: \<^verbatim>\<open>return fix_type_name( in.substr( strlen( str ) ) );\<close>
\<close>

function fix_type_name_from :: "nat \<Rightarrow> string \<Rightarrow> string" where
  "fix_type_name_from k s =
     (if k < length remove_list then
        (if starts_with s (remove_list ! k)
         then fix_type_name_from 0 (drop (length (remove_list ! k)) s)
         else fix_type_name_from (k + 1) (strip_nested (remove_list ! k) s 0))
      else s)"
  by pat_completeness auto
termination
proof (relation "measures [\<lambda>(k, s). length s, \<lambda>(k, s). length remove_list - k]")
  show "wf (measures [\<lambda>(k, s). length s, \<lambda>(k, s). length remove_list - k])" by simp
next
  fix k s
  assume k: "k < length remove_list" and sw: "starts_with s (remove_list ! k)"
  have "remove_list ! k \<noteq> []"
    using k by (auto simp: remove_list_def nth_Cons split: nat.splits)
  then have pos: "length (remove_list ! k) > 0" by simp
  have "length (take (length (remove_list ! k)) s) = length (remove_list ! k)"
    using sw unfolding starts_with_def by simp
  then have "length s \<ge> length (remove_list ! k)" by simp
  with pos have "length s - length (remove_list ! k) < length s" by arith
  then show "((0, drop (length (remove_list ! k)) s), (k, s))
      \<in> measures [\<lambda>(k, s). length s, \<lambda>(k, s). length remove_list - k]"
    by simp
next
  fix k s
  assume k: "k < length remove_list"
  have "length (strip_nested (remove_list ! k) s 0) \<le> length s" by (rule length_strip_nested)
  with k show "((k + 1, strip_nested (remove_list ! k) s 0), (k, s))
      \<in> measures [\<lambda>(k, s). length s, \<lambda>(k, s). length remove_list - k]"
    by auto
qed

declare fix_type_name_from.simps [simp del]

definition fix_type_name :: "string \<Rightarrow> string" where
  "fix_type_name s = fix_type_name_from 0 s"

subsection \<open>\<^verbatim>\<open>as_string\<close> (lines 150-225)\<close>

text \<open>
  What a call can end in besides a string: the final \<^verbatim>\<open>// void\<close> fall-through (the value
  is not string convertible), the \<^verbatim>\<open>unreachable()\<close> after the duration loop, a read past
  the end of a character array that has no terminator, and the end of the function body
  reached without a \<^verbatim>\<open>return\<close> (the optional branch tests \<^verbatim>\<open>StringConvertible\<close> with a
  plain \<^verbatim>\<open>if\<close>).
\<close>

datatype fault = NoConversion | Unreachable | OutOfBounds | NoReturn

text \<open>
  \<^verbatim>\<open>std::string{ x }\<close> for a \<^verbatim>\<open>const char*\<close> and \<^verbatim>\<open>wcslen( x )\<close> for a \<^verbatim>\<open>const wchar_t*\<close>
  count the code units before the first terminator in the array the pointer refers to.
\<close>

fun strlen :: "string \<Rightarrow> nat option" where
  "strlen [] = None"
| "strlen (c # cs) = (if c = CHR 0x00 then Some 0 else map_option Suc (strlen cs))"

fun wcslen :: "'w::len word list \<Rightarrow> nat option" where
  "wcslen [] = None"
| "wcslen (c # cs) = (if c = 0 then Some 0 else map_option Suc (wcslen cs))"

text \<open>
  The conversion of one \<^verbatim>\<open>wchar_t\<close> to \<^verbatim>\<open>char\<close> made by the iterator-range constructor
  \<^verbatim>\<open>std::string{ x.begin(), x.end() }\<close>: the low eight bits are kept.
\<close>

definition narrow :: "'w::len word \<Rightarrow> char" where
  "narrow c = char_of (unat c)"

text \<open>
  The duration branch (lines 176-198). A duration type \<^verbatim>\<open>base_type\<close> with a signed
  integral representation is given by the width \<open>bits\<close> of the representation and its
  tick period \<open>num / den\<close> seconds; a value by its count of ticks. (A floating-point
  representation is outside this model: its conversions do not truncate.) The table lists
  \<^verbatim>\<open>std::chrono::hours{ 1 }\<close> ... \<^verbatim>\<open>nanoseconds{ 1 }\<close> by their periods in seconds.
  \<^verbatim>\<open>std::chrono::duration_cast<base_type>\<close> of one unit is the truncated quotient of the
  two periods, computed in \<^verbatim>\<open>intmax_t\<close> and then converted to the representation, which
  keeps the low \<open>bits\<close> bits in two's complement.
\<close>

definition unit_table :: "((nat \<times> nat) \<times> string \<times> bool) list" where
  "unit_table =
     [((3600, 1), ''hrs'', False),
      ((60, 1), ''min'', False),
      ((1, 1), ''sec'', False),
      ((1, 1000), ''ms'', False),
      ((1, 1000000000), ''ns'', True)]"

definition to_rep :: "nat \<Rightarrow> int \<Rightarrow> int" where
  "to_rep bits q = (q + 2 ^ (bits - 1)) mod 2 ^ bits - 2 ^ (bits - 1)"

definition duration_cast_one :: "nat \<Rightarrow> nat \<Rightarrow> nat \<Rightarrow> nat \<times> nat \<Rightarrow> int" where
  "duration_cast_one bits num den u = to_rep bits (int ((fst u * den) div (snd u * num)))"

definition durations :: "nat \<Rightarrow> nat \<Rightarrow> nat \<Rightarrow> (int \<times> string \<times> bool) list" where
  "durations bits num den =
     map (\<lambda>(u, name, is_last). (duration_cast_one bits num den u, name, is_last)) unit_table"

text \<open>
  \<^verbatim>\<open>for ( auto& [dur, name, last] : durations )\<close>
  \<^verbatim>\<open>  if ( last || x > dur )\<close>
  \<^verbatim>\<open>    return flt2str( x.count() / float( dur.count() ) ) + name;\<close>
  \<^verbatim>\<open>unreachable();\<close>

  The single-precision division and the \<^verbatim>\<open>"%.2f"\<close> conversion belong to the host's
  floating-point unit and C library. They are the parameter \<open>flt2str_div\<close>, applied to
  the two counts that the source divides.
\<close>

fun select_unit ::
  "(int \<Rightarrow> int \<Rightarrow> string) \<Rightarrow> (int \<times> string \<times> bool) list \<Rightarrow> int \<Rightarrow> fault + string" where
  "select_unit flt2str_div [] x = Inl Unreachable"
| "select_unit flt2str_div ((dur, name, is_last) # rest) x =
     (if is_last \<or> x > dur then Inr (flt2str_div x dur @ name)
      else select_unit flt2str_div rest x)"

definition as_string_duration ::
  "(int \<Rightarrow> int \<Rightarrow> string) \<Rightarrow> nat \<Rightarrow> nat \<Rightarrow> nat \<Rightarrow> int \<Rightarrow> fault + string" where
  "as_string_duration flt2str_div bits num den x =
     select_unit flt2str_div (durations bits num den) x"

text \<open>
  The container branch (lines 213-223):
  \<^verbatim>\<open>for ( auto& entry : x ) items += as_string( entry ) + ", ";\<close>
  \<^verbatim>\<open>if ( !items.empty() ) items.resize( items.size() - 2 );\<close>
  \<^verbatim>\<open>return "{" + items + "}";\<close>
  The call \<^verbatim>\<open>as_string( entry )\<close> is the instantiation of the template at the element
  type; it is the parameter \<open>f\<close>.
\<close>

fun append_items :: "('e \<Rightarrow> string) \<Rightarrow> string \<Rightarrow> 'e list \<Rightarrow> string" where
  "append_items f items [] = items"
| "append_items f items (entry # rest) = append_items f (items @ (f entry @ '', '')) rest"

definition as_string_iterable :: "('e \<Rightarrow> string) \<Rightarrow> 'e list \<Rightarrow> string" where
  "as_string_iterable f x =
     (let items = append_items f [] x;
          items' = (if items \<noteq> [] then take (length items - 2) items else items)
      in ''{'' @ items' @ ''}'')"

text \<open>
  The argument of \<^verbatim>\<open>as_string\<close>. The template selects its branch by compile-time probes
  of the argument's type, and one type can pass several of them, so a value carries what
  each probe finds:
  \<^item> \<open>std_to_string\<close>: the result of \<^verbatim>\<open>std::to_string( x )\<close> when
    \<^verbatim>\<open>StdStringConvertible<T>\<close> holds;
  \<^item> \<open>to_string\<close>: the result of \<^verbatim>\<open>x.to_string()\<close> when \<^verbatim>\<open>CustomStringConvertible<T>\<close>
    holds;
  \<^item> \<open>base\<close>: which of the types tested by \<^verbatim>\<open>std::is_same_v\<close> and
    \<^verbatim>\<open>is_specialization_v\<close> the \<^verbatim>\<open>base_type\<close> is, with the data that branch reads (these
    tests exclude one another), or none of them;
  \<^item> \<open>elements\<close>: the elements in iteration order when \<^verbatim>\<open>Iterable<T>\<close> holds.
  \<open>'e\<close> is the type of the value inside an optional or of the elements, \<open>'c\<close> the wide
  code unit.
\<close>

datatype ('e, 'c) shape =
    NarrowString string
  | NarrowCString string
  | WideString "'c list"
  | WideCString "'c list"
  | Duration nat nat nat int
  | Optional "'e option"
  | OtherType

record ('e, 'c) val =
  std_to_string :: "string option"
  to_string :: "string option"
  base :: "('e, 'c) shape"
  elements :: "'e list option"

text \<open>
  The \<^verbatim>\<open>if constexpr\<close> ladder in source order. \<open>elem_convertible\<close> is
  \<^verbatim>\<open>StringConvertible\<close> of the inner type and \<open>elem_as_string\<close> is \<^verbatim>\<open>as_string\<close> at
  that type.
\<close>

definition as_string ::
  "(int \<Rightarrow> int \<Rightarrow> string) \<Rightarrow> bool \<Rightarrow> ('e \<Rightarrow> string) \<Rightarrow> ('e, 'w::len word) val
     \<Rightarrow> fault + string" where
  "as_string flt2str_div elem_convertible elem_as_string x =
     (case std_to_string x of
        Some s \<Rightarrow> Inr s
      | None \<Rightarrow>
     (case to_string x of
        Some s \<Rightarrow> Inr s
      | None \<Rightarrow>
     (case base x of
        NarrowString s \<Rightarrow> Inr s
      | NarrowCString p \<Rightarrow>
          (case strlen p of None \<Rightarrow> Inl OutOfBounds | Some n \<Rightarrow> Inr (take n p))
      | WideString w \<Rightarrow> Inr (map narrow w)
      | WideCString p \<Rightarrow>
          (case wcslen p of None \<Rightarrow> Inl OutOfBounds | Some n \<Rightarrow> Inr (map narrow (take n p)))
      | Duration bits num den count \<Rightarrow> as_string_duration flt2str_div bits num den count
      | Optional v \<Rightarrow>
          (if elem_convertible
           then (case v of Some y \<Rightarrow> Inr (elem_as_string y) | None \<Rightarrow> Inr ''nullopt'')
           else Inl NoReturn)
      | OtherType \<Rightarrow>
          (case elements x of
             Some c \<Rightarrow>
               (if elem_convertible then Inr (as_string_iterable elem_as_string c)
                else Inl NoConversion)
           | None \<Rightarrow> Inl NoConversion))))"

subsection \<open>\<^verbatim>\<open>str\<close>, \<^verbatim>\<open>hex\<close> and \<^verbatim>\<open>offset\<close> (lines 277-308)\<close>

text \<open>
  The C library's \<^verbatim>\<open>%llx\<close> conversion: the digits of an \<^verbatim>\<open>unsigned long long\<close> in base
  16, lower case, most significant first, no padding, a single \<^verbatim>\<open>0\<close> for zero.
\<close>

definition hex_digit :: "nat \<Rightarrow> char" where
  "hex_digit d = ''0123456789abcdef'' ! d"

fun lowercase_hex :: "nat \<Rightarrow> string" where
  "lowercase_hex n =
     (if n < 16 then [hex_digit n] else lowercase_hex (n div 16) @ [hex_digit (n mod 16)])"

declare lowercase_hex.simps [simp del]

text \<open>
  \<^verbatim>\<open>snprintf\<close> on a format of ordinary characters and one \<^verbatim>\<open>%llx\<close> directive, which
  reads the 64 bits of its argument as unsigned.
\<close>

fun snprintf_llx :: "string \<Rightarrow> 64 word \<Rightarrow> string" where
  "snprintf_llx [] v = []"
| "snprintf_llx (c # cs) v =
     (if c = CHR ''%'' \<and> take 3 cs = ''llx''
      then lowercase_hex (unat v) @ drop 3 cs
      else c # snprintf_llx cs v)"

text \<open>\<^verbatim>\<open>fix_parameter\<close> on an integer: \<^emph>\<open>If fundamental type, return as is.\<close>\<close>

definition fix_parameter :: "64 word \<Rightarrow> 64 word" where
  "fix_parameter x = x"

text \<open>
  \<^verbatim>\<open>buffer.resize( snprintf( nullptr, 0, fmt, fix_parameter( ps )... ) );\<close>
  \<^verbatim>\<open>snprintf( buffer.data(), buffer.size() + 1, fmt, fix_parameter<params>( ... )... );\<close>
  The second pass fills the buffer with as many characters as the first pass counted.
\<close>

definition str :: "string \<Rightarrow> 64 word \<Rightarrow> string" where
  "str fmt v =
     (let n = length (snprintf_llx fmt (fix_parameter v));
          buffer = replicate n (CHR 0x00)
      in take (length buffer) (snprintf_llx fmt (fix_parameter v)))"

text \<open>
  \<^verbatim>\<open>hex\<close> at a 64-bit integer type, the width that \<^verbatim>\<open>%llx\<close> reads; \<open>is_signed\<close> is
  \<^verbatim>\<open>std::is_signed_v\<close> of the type. \<^verbatim>\<open>-value\<close> is two's complement negation, which maps
  the least \<^verbatim>\<open>int64_t\<close> to itself.
\<close>

definition hex :: "bool \<Rightarrow> 64 word \<Rightarrow> string" where
  "hex is_signed v =
     (if \<not> is_signed then str ''0x%llx'' v
      else if 0 \<le> sint v then str ''0x%llx'' v
      else str ''-0x%llx'' (- v))"

definition offset :: "64 word \<Rightarrow> string" where
  "offset v = (if 0 \<le> sint v then str ''+ 0x%llx'' v else str ''- 0x%llx'' (- v))"

section \<open>Properties\<close>

subsection \<open>The temporary ring buffer\<close>

definition ring_inv :: "ring \<Rightarrow> bool" where
  "ring_inv st = (length (ring_buffer st) = 16 \<and> 0 \<le> index st \<and> index st < 16)"

lemma ring_inv_init: "ring_inv ring_init"
  by (simp add: ring_inv_def ring_init_def)

lemma buffer_string_inv:
  assumes "ring_inv st"
  shows "buffer_string v st =
           Some (nat (index st),
                 \<lparr>ring_buffer = (ring_buffer st)[nat (index st) := v],
                  index = (index st + 1) mod 16\<rparr>)"
proof -
  from assms have b: "length (ring_buffer st) = 16" "0 \<le> index st" "index st < 16"
    by (simp_all add: ring_inv_def)
  then have "(index st + 1) mod 2 ^ 64 = index st + 1"
    by (intro mod_pos_pos_trivial) simp_all
  with b show ?thesis by (simp add: buffer_string_def Let_def)
qed

lemma buffer_string_keeps_inv:
  assumes "ring_inv st" "buffer_string v st = Some (p, st')"
  shows "ring_inv st'"
  using assms buffer_string_inv [OF assms(1), of v] by (auto simp: ring_inv_def)

lemma mod16_shift: "((a + 1) mod 16 + b) mod 16 = (a + (b + 1)) mod (16 :: int)"
  by presburger

lemma buffer_strings_inv:
  "ring_inv st \<Longrightarrow>
   \<exists>st'. buffer_strings vs st = Some st' \<and> ring_inv st'
     \<and> index st' = (index st + int (length vs)) mod 16
     \<and> (\<forall>p. (\<forall>k < length vs. (index st + int k) mod 16 \<noteq> int p)
            \<longrightarrow> ring_buffer st' ! p = ring_buffer st ! p)"
proof (induction vs arbitrary: st)
  case Nil
  then show ?case by (simp add: ring_inv_def)
next
  case (Cons v vs)
  let ?st1 = "\<lparr>ring_buffer = (ring_buffer st)[nat (index st) := v],
               index = (index st + 1) mod 16\<rparr>"
  have step: "buffer_string v st = Some (nat (index st), ?st1)"
    using Cons.prems by (rule buffer_string_inv)
  then have inv1: "ring_inv ?st1" using Cons.prems by (rule buffer_string_keeps_inv [rotated])
  from Cons.IH [OF inv1] obtain st' where st':
    "buffer_strings vs ?st1 = Some st'" "ring_inv st'"
    "index st' = (index ?st1 + int (length vs)) mod 16"
    "\<forall>p. (\<forall>k < length vs. (index ?st1 + int k) mod 16 \<noteq> int p)
            \<longrightarrow> ring_buffer st' ! p = ring_buffer ?st1 ! p"
    by blast
  have run: "buffer_strings (v # vs) st = Some st'" using step st'(1) by simp
  have idx: "index st' = (index st + int (length (v # vs))) mod 16"
    using st'(3) mod16_shift [of "index st" "int (length vs)"] by (simp add: add.commute)
  have keep: "ring_buffer st' ! p = ring_buffer st ! p"
    if free: "\<forall>k < length (v # vs). (index st + int k) mod 16 \<noteq> int p" for p
  proof -
    from Cons.prems have b: "0 \<le> index st" "index st < 16" by (simp_all add: ring_inv_def)
    from free have "(index st + int 0) mod 16 \<noteq> int p" by blast
    with b have ne: "nat (index st) \<noteq> p" by auto
    have "\<forall>k < length vs. (index ?st1 + int k) mod 16 \<noteq> int p"
    proof (intro allI impI)
      fix k assume "k < length vs"
      then have "Suc k < length (v # vs)" by simp
      with free have "(index st + int (Suc k)) mod 16 \<noteq> int p" by blast
      moreover have "(index ?st1 + int k) mod 16 = (index st + int (Suc k)) mod 16"
        using mod16_shift [of "index st" "int k"] by (simp add: add.commute)
      ultimately show "(index ?st1 + int k) mod 16 \<noteq> int p" by simp
    qed
    with st'(4) have "ring_buffer st' ! p = ring_buffer ?st1 ! p" by blast
    also have "\<dots> = ring_buffer st ! p" using ne by simp
    finally show ?thesis .
  qed
  from run st'(2) idx keep show ?case by blast
qed

lemma buffer_strings_snoc:
  "buffer_strings (vs @ [v]) st =
     (case buffer_strings vs st of None \<Rightarrow> None | Some st' \<Rightarrow> map_option snd (buffer_string v st'))"
  by (induction vs arbitrary: st) (auto split: option.splits)


lemma mod16_other_slot:
  assumes "0 \<le> i" "i < 16" "0 < j" "j < 16"
  shows "(i + j) mod 16 \<noteq> (i :: int)"
proof (cases "i + j < 16")
  case True
  with assms have "(i + j) mod 16 = i + j" by (intro mod_pos_pos_trivial) simp_all
  with assms show ?thesis by simp
next
  case False
  have "(i + j) mod 16 = (i + j - 16) mod 16" by simp
  also have "\<dots> = i + j - 16" using False assms by (intro mod_pos_pos_trivial) simp_all
  finally show ?thesis using assms by simp
qed

lemma mod16_same_slot:
  assumes "0 \<le> i" "i < 16"
  shows "((i + 1) mod 16 + 15) mod 16 = (i :: int)"
proof -
  have "((i + 1) mod 16 + 15) mod 16 = (i + 16) mod 16"
    using mod16_shift [of i 15] by simp
  also have "\<dots> = i mod 16" by simp
  also have "\<dots> = i" using assms by simp
  finally show ?thesis .
qed

text \<open>
  C9. The ring has 16 slots and, in every state that calls of \<open>buffer_string\<close> reach from
  the initial one, the index lies in [0, 16). A call writes its value into the slot at the
  current index, advances the index by one modulo 16 and returns the slot just written.
  That slot still holds the value after any fewer than 16 further calls, and the 16th
  further call overwrites it.
\<close>

theorem ring_buffer_contract:
  "\<exists>st p st'.
     buffer_strings calls ring_init = Some st
     \<and> length (ring_buffer st) = 16 \<and> 0 \<le> index st \<and> index st < 16
     \<and> buffer_string v st = Some (p, st')
     \<and> p = nat (index st) \<and> ring_buffer st' ! p = v
     \<and> length (ring_buffer st') = 16 \<and> index st' = (index st + 1) mod 16
     \<and> (length later < 16 \<longrightarrow>
           (\<exists>st''. buffer_strings later st' = Some st'' \<and> ring_buffer st'' ! p = v))
     \<and> (length full = 16 \<longrightarrow>
           (\<exists>st''. buffer_strings full st' = Some st'' \<and> ring_buffer st'' ! p = last full))"
proof -
  from buffer_strings_inv [OF ring_inv_init, of calls]
  obtain st where st: "buffer_strings calls ring_init = Some st" "ring_inv st" by blast
  then have b: "length (ring_buffer st) = 16" "0 \<le> index st" "index st < 16"
    by (simp_all add: ring_inv_def)
  define p where "p = nat (index st)"
  define st' where "st' = \<lparr>ring_buffer = (ring_buffer st)[p := v], index = (index st + 1) mod 16\<rparr>"
  have step: "buffer_string v st = Some (p, st')"
    unfolding p_def st'_def using st(2) by (rule buffer_string_inv)
  with st(2) have inv': "ring_inv st'" by (rule buffer_string_keeps_inv)
  have pb: "p < 16" "int p = index st" using b by (simp_all add: p_def)
  have written: "ring_buffer st' ! p = v" using pb b by (simp add: st'_def)
  have len': "length (ring_buffer st') = 16" using b by (simp add: st'_def)
  have idx': "index st' = (index st + 1) mod 16" by (simp add: st'_def)
  have short: "\<exists>st''. buffer_strings later st' = Some st'' \<and> ring_buffer st'' ! p = v"
    if l: "length later < 16"
  proof -
    from buffer_strings_inv [OF inv', of later] obtain st'' where r:
      "buffer_strings later st' = Some st''"
      "\<forall>q. (\<forall>k < length later. (index st' + int k) mod 16 \<noteq> int q)
            \<longrightarrow> ring_buffer st'' ! q = ring_buffer st' ! q" by blast
    have "\<forall>k < length later. (index st' + int k) mod 16 \<noteq> int p"
    proof (intro allI impI)
      fix k assume "k < length later"
      with l have "0 < int k + 1" "int k + 1 < 16" by simp_all
      with b have "(index st + (int k + 1)) mod 16 \<noteq> index st" by (intro mod16_other_slot)
      then show "(index st' + int k) mod 16 \<noteq> int p"
        unfolding idx' pb(2) mod16_shift .
    qed
    with r(2) have "ring_buffer st'' ! p = ring_buffer st' ! p" by blast
    with written r(1) show ?thesis by simp
  qed
  have wrap: "\<exists>st''. buffer_strings full st' = Some st'' \<and> ring_buffer st'' ! p = last full"
    if l: "length full = 16"
  proof -
    from l have ne: "full \<noteq> []" by auto
    then have split: "full = butlast full @ [last full]" by simp
    from l have lb: "length (butlast full) = 15" by simp
    from buffer_strings_inv [OF inv', of "butlast full"] obtain st2 where r:
      "buffer_strings (butlast full) st' = Some st2" "ring_inv st2"
      "index st2 = (index st' + int (length (butlast full))) mod 16" by blast
    have i2: "index st2 = index st"
      unfolding r(3) lb idx' using b by (simp add: mod16_same_slot)
    have s2: "buffer_string (last full) st2 =
        Some (nat (index st2), \<lparr>ring_buffer = (ring_buffer st2)[nat (index st2) := last full],
                 index = (index st2 + 1) mod 16\<rparr>)"
      using r(2) by (rule buffer_string_inv)
    let ?st3 = "\<lparr>ring_buffer = (ring_buffer st2)[p := last full], index = (index st2 + 1) mod 16\<rparr>"
    have "buffer_strings (butlast full @ [last full]) st' = Some ?st3"
      unfolding buffer_strings_snoc using r(1) s2 by (simp add: i2 p_def)
    then have run: "buffer_strings full st' = Some ?st3" using split by simp
    have "length (ring_buffer st2) = 16" using r(2) by (simp add: ring_inv_def)
    with pb have "ring_buffer ?st3 ! p = last full" by simp
    with run show ?thesis by blast
  qed
  from st(1) b step written len' idx' short wrap show ?thesis
    unfolding p_def [symmetric] by (intro exI [of _ st] exI [of _ p] exI [of _ st']) (simp add: p_def)
qed

theorem ring_buffer_contract_witness:
  "\<exists>st p st' st2 st3.
     buffer_strings [''a''] ring_init = Some st
     \<and> buffer_string ''b'' st = Some (p, st')
     \<and> buffer_strings [''c'', ''d''] st' = Some st2 \<and> ring_buffer st2 ! p = ''b''
     \<and> buffer_strings (replicate 16 ''z'') st' = Some st3 \<and> ring_buffer st3 ! p = ''z''"
proof -
  from ring_buffer_contract [of "[''a'']" "''b''" "[''c'', ''d'']" "replicate 16 ''z''"]
  obtain st p st' where r:
    "buffer_strings [''a''] ring_init = Some st"
    "buffer_string ''b'' st = Some (p, st')"
    "length [''c'', ''d''] < 16 \<longrightarrow>
       (\<exists>st''. buffer_strings [''c'', ''d''] st' = Some st'' \<and> ring_buffer st'' ! p = ''b'')"
    "length (replicate 16 ''z'') = 16 \<longrightarrow>
       (\<exists>st''. buffer_strings (replicate 16 ''z'') st' = Some st''
          \<and> ring_buffer st'' ! p = last (replicate 16 ''z''))"
    by blast
  have h1: "length [''c'', ''d''] < 16" by simp
  have h2: "length (replicate 16 ''z'') = 16" by simp
  have l: "last (replicate 16 ''z'') = ''z''" by simp
  from r(3) h1 obtain st2 where
    s2: "buffer_strings [''c'', ''d''] st' = Some st2" "ring_buffer st2 ! p = ''b''" by blast
  from r(4) h2 l obtain st3 where
    s3: "buffer_strings (replicate 16 ''z'') st' = Some st3" "ring_buffer st3 ! p = ''z''"
    by metis
  from r(1,2) s2 s3 show ?thesis by blast
qed

subsection \<open>The type-name prettifier\<close>

lemma fix_type_name_from_done: "\<not> k < length remove_list \<Longrightarrow> fix_type_name_from k s = s"
  by (subst fix_type_name_from.simps) simp

lemma fix_type_name_from_prefix:
  "k < length remove_list \<Longrightarrow> starts_with s (remove_list ! k) \<Longrightarrow>
   fix_type_name_from k s = fix_type_name_from 0 (drop (length (remove_list ! k)) s)"
  by (subst fix_type_name_from.simps) simp

lemma fix_type_name_from_next:
  "k < length remove_list \<Longrightarrow> \<not> starts_with s (remove_list ! k) \<Longrightarrow>
   fix_type_name_from k s = fix_type_name_from (k + 1) (strip_nested (remove_list ! k) s 0)"
  by (subst fix_type_name_from.simps) simp

text \<open>
  Two predicates on a name: one of the four entries of the remove list stands right after
  some \<^verbatim>\<open><\<close>; one of them stands at the front.
\<close>

fun has_nested :: "string \<Rightarrow> bool" where
  "has_nested [] = False"
| "has_nested (c # cs) =
     ((c = CHR ''<'' \<and> list_ex (starts_with cs) remove_list) \<or> has_nested cs)"

definition has_leading :: "string \<Rightarrow> bool" where
  "has_leading s = list_ex (starts_with s) remove_list"

lemma has_nested_iff:
  "has_nested s \<longleftrightarrow>
     (\<exists>i < length s. \<exists>p \<in> set remove_list. s ! i = CHR ''<'' \<and> starts_with (drop (i + 1) s) p)"
proof (induction s)
  case Nil
  show ?case by simp
next
  case (Cons c cs)
  show ?case (is "?L \<longleftrightarrow> ?R")
  proof
    assume ?L
    then consider (here) "c = CHR ''<''" "list_ex (starts_with cs) remove_list"
      | (later) "has_nested cs" by auto
    then show ?R
    proof cases
      case here
      then obtain p where "p \<in> set remove_list" "starts_with cs p"
        by (auto simp: list_ex_iff)
      with here(1) have "0 < length (c # cs) \<and> (\<exists>p \<in> set remove_list.
          (c # cs) ! 0 = CHR ''<'' \<and> starts_with (drop (0 + 1) (c # cs)) p)"
        by auto
      then show ?thesis by blast
    next
      case later
      with Cons.IH obtain i p where "i < length cs" "p \<in> set remove_list"
        "cs ! i = CHR ''<''" "starts_with (drop (i + 1) cs) p" by blast
      then have "Suc i < length (c # cs) \<and> (\<exists>p \<in> set remove_list.
          (c # cs) ! Suc i = CHR ''<'' \<and> starts_with (drop (Suc i + 1) (c # cs)) p)"
        by auto
      then show ?thesis by blast
    qed
  next
    assume ?R
    then obtain i p where ip: "i < length (c # cs)" "p \<in> set remove_list"
      "(c # cs) ! i = CHR ''<''" "starts_with (drop (i + 1) (c # cs)) p" by blast
    show ?L
    proof (cases i)
      case 0
      with ip show ?thesis by (auto simp: list_ex_iff)
    next
      case (Suc j)
      with ip have "j < length cs" "cs ! j = CHR ''<''" "starts_with (drop (j + 1) cs) p"
        by auto
      with ip(2) Cons.IH have "has_nested cs" by blast
      then show ?thesis by simp
    qed
  qed
qed


lemma strip_nested_id:
  "(\<forall>j. i \<le> j \<and> j < length s \<longrightarrow> \<not> (s ! j = CHR ''<'' \<and> starts_with (drop (j + 1) s) pre))
   \<Longrightarrow> strip_nested pre s i = s"
proof (induction pre s i rule: strip_nested.induct)
  case (1 pre s i)
  show ?case
  proof (cases "i < length s")
    case False
    then show ?thesis by (simp add: strip_nested_done)
  next
    case True
    from "1.prems" True
    have miss: "\<not> (s ! i = CHR ''<'' \<and> starts_with (drop (i + 1) s) pre)" by auto
    from "1.prems"
    have "\<forall>j. i + 1 \<le> j \<and> j < length s \<longrightarrow>
            \<not> (s ! j = CHR ''<'' \<and> starts_with (drop (j + 1) s) pre)" by auto
    with "1.IH"(2) True miss have "strip_nested pre s (i + 1) = s" by blast
    with True miss show ?thesis by (simp add: strip_nested_miss)
  qed
qed

lemma strip_nested_shrinks:
  "pre \<noteq> [] \<Longrightarrow>
   \<exists>j. i \<le> j \<and> j < length s \<and> s ! j = CHR ''<'' \<and> starts_with (drop (j + 1) s) pre \<Longrightarrow>
   length (strip_nested pre s i) < length s"
proof (induction pre s i rule: strip_nested.induct)
  case (1 pre s i)
  from "1.prems"(2) obtain j where j: "i \<le> j" "j < length s" "s ! j = CHR ''<''"
    "starts_with (drop (j + 1) s) pre" by blast
  then have inb: "i < length s" by simp
  show ?case
  proof (cases "s ! i = CHR ''<'' \<and> starts_with (drop (i + 1) s) pre")
    case True
    then have "take (length pre) (drop (i + 1) s) = pre" by (simp add: starts_with_def)
    then have "length pre = length (take (length pre) (drop (i + 1) s))" by simp
    with inb have fits: "i + 1 + length pre \<le> length s" by (simp add: min_def split: if_splits)
    have "length (strip_nested pre s i)
            = length (strip_nested pre (take (i + 1) s @ drop (i + 1 + length pre) s) (i + 1))"
      using inb True by (simp add: strip_nested_hit)
    also have "\<dots> \<le> length (take (i + 1) s @ drop (i + 1 + length pre) s)"
      by (rule length_strip_nested)
    also have "\<dots> < length s"
    proof -
      from "1.prems"(1) have pos: "0 < length pre" by simp
      from fits have "length (take (i + 1) s @ drop (i + 1 + length pre) s)
                        = length s - length pre" by simp
      with pos fits show ?thesis by arith
    qed
    finally show ?thesis .
  next
    case False
    with j have "i \<noteq> j" by auto
    with j have "\<exists>j. i + 1 \<le> j \<and> j < length s \<and> s ! j = CHR ''<'' \<and>
        starts_with (drop (j + 1) s) pre" by (intro exI [of _ j]) simp
    with "1.IH"(2) inb False "1.prems"(1) have "length (strip_nested pre s (i + 1)) < length s"
      by blast
    with inb False show ?thesis by (simp add: strip_nested_miss)
  qed
qed

lemma starts_with_splice:
  assumes "CHR ''<'' \<notin> set p" "i < length s" "s ! i = CHR ''<''"
  shows "starts_with (take (i + 1) s @ t) p = starts_with s p"
proof (cases "length p \<le> i + 1")
  case True
  with assms(2) have "min (length s) (Suc i) = Suc i" "length p - Suc i = 0" by simp_all
  then show ?thesis by (simp add: starts_with_def)
next
  case False
  then have long: "i < length p" by simp
  have "\<not> starts_with s p"
  proof
    assume "starts_with s p"
    then have "take (length p) s = p" by (simp add: starts_with_def)
    then have "p ! i = s ! i" using long by (metis nth_take)
    with assms(3) long assms(1) show False by (metis nth_mem)
  qed
  moreover have "\<not> starts_with (take (i + 1) s @ t) p"
  proof
    assume "starts_with (take (i + 1) s @ t) p"
    then have "take (length p) (take (i + 1) s @ t) = p" by (simp add: starts_with_def)
    then have "p ! i = (take (i + 1) s @ t) ! i" using long by (metis nth_take)
    also have "\<dots> = s ! i" using assms(2) by (simp add: nth_append)
    finally show False using assms(3) long assms(1) by (metis nth_mem)
  qed
  ultimately show ?thesis by simp
qed

lemma starts_with_strip_nested:
  "CHR ''<'' \<notin> set p \<Longrightarrow> starts_with (strip_nested pre s i) p = starts_with s p"
proof (induction pre s i rule: strip_nested.induct)
  case (1 pre s i)
  show ?case
  proof (cases "i < length s")
    case False
    then show ?thesis by (simp add: strip_nested_done)
  next
    case inb: True
    show ?thesis
    proof (cases "s ! i = CHR ''<'' \<and> starts_with (drop (i + 1) s) pre")
      case True
      with inb "1.IH"(1) "1.prems"
      have "starts_with (strip_nested pre s i) p
              = starts_with (take (i + 1) s @ drop (i + 1 + length pre) s) p"
        by (simp add: strip_nested_hit)
      also have "\<dots> = starts_with s p"
        using "1.prems" inb True by (intro starts_with_splice) simp_all
      finally show ?thesis .
    next
      case False
      with inb "1.IH"(2) "1.prems" show ?thesis by (simp add: strip_nested_miss)
    qed
  qed
qed


lemma remove_list_nonempty: "p \<in> set remove_list \<Longrightarrow> p \<noteq> []"
  by (auto simp: remove_list_def)

lemma remove_list_no_lt: "p \<in> set remove_list \<Longrightarrow> CHR ''<'' \<notin> set p"
  by (auto simp: remove_list_def)

lemma length_fix_type_name_from: "length (fix_type_name_from k s) \<le> length s"
proof (induction k s rule: fix_type_name_from.induct)
  case (1 k s)
  show ?case
  proof (cases "k < length remove_list")
    case False
    then show ?thesis by (simp add: fix_type_name_from_done)
  next
    case inb: True
    show ?thesis
    proof (cases "starts_with s (remove_list ! k)")
      case True
      with inb "1.IH"(1)
      have "length (fix_type_name_from k s) \<le> length (drop (length (remove_list ! k)) s)"
        by (simp add: fix_type_name_from_prefix)
      then show ?thesis by simp
    next
      case False
      with inb "1.IH"(2)
      have "length (fix_type_name_from k s) \<le> length (strip_nested (remove_list ! k) s 0)"
        by (simp add: fix_type_name_from_next)
      also have "\<dots> \<le> length s" by (rule length_strip_nested)
      finally show ?thesis .
    qed
  qed
qed

lemma fix_type_name_from_no_leading:
  "(\<forall>j < k. j < length remove_list \<longrightarrow> \<not> starts_with s (remove_list ! j)) \<Longrightarrow>
   p \<in> set remove_list \<Longrightarrow> \<not> starts_with (fix_type_name_from k s) p"
proof (induction k s rule: fix_type_name_from.induct)
  case (1 k s)
  show ?case
  proof (cases "k < length remove_list")
    case False
    from "1.prems"(2) obtain j where "j < length remove_list" "p = remove_list ! j"
      by (auto simp: in_set_conv_nth)
    with False "1.prems"(1) have "\<not> starts_with s p" by simp
    with False show ?thesis by (simp add: fix_type_name_from_done)
  next
    case inb: True
    show ?thesis
    proof (cases "starts_with s (remove_list ! k)")
      case True
      with inb "1.IH"(1) "1.prems"(2) show ?thesis by (simp add: fix_type_name_from_prefix)
    next
      case False
      have "\<forall>j < k + 1. j < length remove_list \<longrightarrow>
              \<not> starts_with (strip_nested (remove_list ! k) s 0) (remove_list ! j)"
      proof (intro allI impI)
        fix j assume j: "j < k + 1" "j < length remove_list"
        then have "\<not> starts_with s (remove_list ! j)"
          using False "1.prems"(1) by (cases "j = k") auto
        moreover have "CHR ''<'' \<notin> set (remove_list ! j)"
          using j(2) by (intro remove_list_no_lt) simp
        ultimately show "\<not> starts_with (strip_nested (remove_list ! k) s 0) (remove_list ! j)"
          by (simp add: starts_with_strip_nested)
      qed
      with inb False "1.IH"(2) "1.prems"(2) show ?thesis by (simp add: fix_type_name_from_next)
    qed
  qed
qed

lemma fix_type_name_from_clean:
  "\<not> has_leading s \<Longrightarrow> \<not> has_nested s \<Longrightarrow> fix_type_name_from k s = s"
proof (induction "length remove_list - k" arbitrary: k)
  case 0
  then show ?case by (simp add: fix_type_name_from_done)
next
  case (Suc n)
  then have inb: "k < length remove_list" by simp
  then have mem: "remove_list ! k \<in> set remove_list" by simp
  with Suc.prems(1) have nolead: "\<not> starts_with s (remove_list ! k)"
    by (auto simp: has_leading_def list_ex_iff)
  from Suc.prems(2) mem
  have "\<forall>j. 0 \<le> j \<and> j < length s \<longrightarrow>
          \<not> (s ! j = CHR ''<'' \<and> starts_with (drop (j + 1) s) (remove_list ! k))"
    unfolding has_nested_iff by blast
  then have "strip_nested (remove_list ! k) s 0 = s" by (rule strip_nested_id)
  with inb nolead have "fix_type_name_from k s = fix_type_name_from (k + 1) s" by (simp add: fix_type_name_from_next)
  also have "\<dots> = s" using Suc.hyps(1) [of "k + 1"] Suc.hyps(2) Suc.prems by simp
  finally show ?case .
qed

lemma fix_type_name_from_shrinks:
  "\<exists>j i. k \<le> j \<and> j < length remove_list \<and> i < length s \<and> s ! i = CHR ''<'' \<and>
      starts_with (drop (i + 1) s) (remove_list ! j) \<Longrightarrow>
   length (fix_type_name_from k s) < length s"
proof (induction k s rule: fix_type_name_from.induct)
  case (1 k s)
  from "1.prems" obtain j i where ji: "k \<le> j" "j < length remove_list" "i < length s"
    "s ! i = CHR ''<''" "starts_with (drop (i + 1) s) (remove_list ! j)" by blast
  then have inb: "k < length remove_list" by simp
  then have ne: "remove_list ! k \<noteq> []" by (intro remove_list_nonempty) simp
  show ?case
  proof (cases "starts_with s (remove_list ! k)")
    case True
    have "length (fix_type_name_from k s) = length (fix_type_name_from 0 (drop (length (remove_list ! k)) s))"
      using inb True by (simp add: fix_type_name_from_prefix)
    also have "\<dots> \<le> length (drop (length (remove_list ! k)) s)" by (rule length_fix_type_name_from)
    also have "\<dots> < length s"
    proof -
      from ne have "0 < length (remove_list ! k)" by simp
      with ji(3) have "length s - length (remove_list ! k) < length s" by arith
      then show ?thesis by simp
    qed
    finally show ?thesis .
  next
    case False
    let ?t = "strip_nested (remove_list ! k) s 0"
    have eq: "fix_type_name_from k s = fix_type_name_from (k + 1) ?t"
      using inb False by (simp add: fix_type_name_from_next)
    show ?thesis
    proof (cases "\<exists>i. 0 \<le> i \<and> i < length s \<and> s ! i = CHR ''<'' \<and>
                    starts_with (drop (i + 1) s) (remove_list ! k)")
      case True
      with ne have "length ?t < length s" by (rule strip_nested_shrinks)
      moreover have "length (fix_type_name_from (k + 1) ?t) \<le> length ?t" by (rule length_fix_type_name_from)
      ultimately show ?thesis using eq by simp
    next
      case nohit: False
      then have same: "?t = s" by (intro strip_nested_id) blast
      from nohit ji have "j \<noteq> k" by auto
      with ji have "\<exists>j i. k + 1 \<le> j \<and> j < length remove_list \<and> i < length ?t \<and>
          ?t ! i = CHR ''<'' \<and> starts_with (drop (i + 1) ?t) (remove_list ! j)"
        unfolding same by (intro exI [of _ j] exI [of _ i]) simp
      with "1.IH"(2) inb False have "length (fix_type_name_from (k + 1) ?t) < length ?t" by blast
      with eq same show ?thesis by simp
    qed
  qed
qed

text \<open>
  The leading path strips to a fixed point: a prettified name never begins with an entry of
  the remove list. The path after \<^verbatim>\<open><\<close> does not: a second application changes a
  prettified name exactly when an entry is still left right after some \<^verbatim>\<open><\<close>.
\<close>

lemma fix_type_name_no_leading: "\<not> has_leading (fix_type_name s)"
  unfolding has_leading_def list_ex_iff fix_type_name_def
  using fix_type_name_from_no_leading [of 0 s] by auto

lemma fix_type_name_twice_iff:
  "fix_type_name (fix_type_name s) = fix_type_name s \<longleftrightarrow> \<not> has_nested (fix_type_name s)"
proof -
  have "fix_type_name (fix_type_name s) = fix_type_name s" if "\<not> has_nested (fix_type_name s)"
    using fix_type_name_no_leading [of s] that unfolding fix_type_name_def
    by (intro fix_type_name_from_clean) simp_all
  moreover have "fix_type_name (fix_type_name s) \<noteq> fix_type_name s"
    if "has_nested (fix_type_name s)"
  proof -
    let ?r = "fix_type_name s"
    from that obtain i p where "i < length ?r" "p \<in> set remove_list" "?r ! i = CHR ''<''"
      "starts_with (drop (i + 1) ?r) p" unfolding has_nested_iff by blast
    then have "\<exists>j i. 0 \<le> j \<and> j < length remove_list \<and> i < length ?r \<and> ?r ! i = CHR ''<'' \<and>
        starts_with (drop (i + 1) ?r) (remove_list ! j)"
      by (metis in_set_conv_nth le0)
    then have "length (fix_type_name_from 0 ?r) < length ?r" by (rule fix_type_name_from_shrinks)
    then show ?thesis by (auto simp: fix_type_name_def)
  qed
  ultimately show ?thesis by blast
qed

text \<open>The scenario of the spec, with \<^verbatim>\<open>vtil::\<close> as the project prefix.\<close>

lemma fix_type_name_scenario:
  "fix_type_name ''class vtil::bar<struct vtil::baz>'' = ''bar<baz>''"
  by code_simp

text \<open>
  C1. Prettifying twice should give the same name as prettifying once. At the name
  \<^verbatim>\<open>foo<struct struct bar>\<close> it does not: the scan over the positions after \<^verbatim>\<open><\<close> removes
  one occurrence of an entry per position and moves on, so the first application leaves
  \<^verbatim>\<open>foo<struct bar>\<close> and the second removes the rest. What is left depends on the order
  of the keywords, and the same keywords at the front of a name are all stripped.
\<close>

theorem fix_type_name_nested_residue:
  "fix_type_name ''foo<struct struct bar>'' = ''foo<struct bar>''
   \<and> fix_type_name (fix_type_name ''foo<struct struct bar>'') = ''foo<bar>''
   \<and> fix_type_name ''x<class struct y>'' = ''x<struct y>''
   \<and> fix_type_name ''x<struct class y>'' = ''x<y>''
   \<and> fix_type_name ''class struct y'' = ''y''
   \<and> fix_type_name ''struct struct y'' = ''y''"
proof -
  have r1: "fix_type_name ''foo<struct struct bar>'' = ''foo<struct bar>''" by code_simp
  have r2: "fix_type_name ''foo<struct bar>'' = ''foo<bar>''" by code_simp
  have r3: "fix_type_name ''x<class struct y>'' = ''x<struct y>''" by code_simp
  have r4: "fix_type_name ''x<struct class y>'' = ''x<y>''" by code_simp
  have r5: "fix_type_name ''class struct y'' = ''y''" by code_simp
  have r6: "fix_type_name ''struct struct y'' = ''y''" by code_simp
  show ?thesis unfolding r1 r2 using r1 r3 r4 r5 r6 by simp
qed

subsection \<open>\<^verbatim>\<open>as_string\<close>: the priority ladder, strings, optionals and containers\<close>

text \<open>The spec's wording for the container format: the elements' strings joined by a separator.\<close>

fun join_spec :: "string \<Rightarrow> string list \<Rightarrow> string" where
  "join_spec sep [] = []"
| "join_spec sep [s] = s"
| "join_spec sep (s # t # ts) = s @ sep @ join_spec sep (t # ts)"

lemma append_items_acc: "append_items f acc xs = acc @ append_items f [] xs"
proof (induction xs arbitrary: acc)
  case Nil
  show ?case by simp
next
  case (Cons e es)
  have "append_items f acc (e # es) = append_items f (acc @ (f e @ '', '')) es"
    by simp
  also have "\<dots> = (acc @ (f e @ '', '')) @ append_items f [] es"
    by (rule Cons.IH)
  also have "\<dots> = acc @ append_items f ([] @ (f e @ '', '')) es"
    using Cons.IH [of "[] @ (f e @ '', '')"] by simp
  finally show ?case by simp
qed

lemma append_items_join:
  "xs \<noteq> [] \<Longrightarrow> append_items f [] xs = join_spec '', '' (map f xs) @ '', ''"
proof (induction xs rule: induct_list012)
  case 1
  then show ?case by simp
next
  case (2 x)
  show ?case by simp
next
  case (3 x y zs)
  have "append_items f [] (x # y # zs) = (f x @ '', '') @ append_items f [] (y # zs)"
    using append_items_acc [of f "f x @ '', ''" "y # zs"] by simp
  then show ?case using 3 by simp
qed

lemma as_string_iterable_eq:
  "as_string_iterable f c = ''{'' @ join_spec '', '' (map f c) @ ''}''"
proof (cases c)
  case Nil
  then show ?thesis by (simp add: as_string_iterable_def)
next
  case (Cons e es)
  then have "append_items f [] c = join_spec '', '' (map f c) @ '', ''"
    using append_items_join [of c f] by simp
  then show ?thesis by (simp add: as_string_iterable_def Let_def)
qed

text \<open>
  C3, as amended. For every iterable of stringifiable elements whose type matches no earlier
  rung of the ladder (it has neither \<^verbatim>\<open>std::to_string\<close> nor a member \<^verbatim>\<open>to_string\<close> and is
  not a narrow or wide string or C-string, a duration or an optional), the result is an
  opening brace, the elements' strings in iteration order joined by comma-space, and a
  closing brace; the empty iterable gives exactly the two braces.
\<close>

theorem as_string_container_law:
  "as_string flt2str_div True elem_as_string
      \<lparr>std_to_string = None, to_string = None, base = OtherType, elements = Some c\<rparr>
     = Inr (''{'' @ join_spec '', '' (map elem_as_string c) @ ''}'')
   \<and> as_string flt2str_div True elem_as_string
      \<lparr>std_to_string = None, to_string = None, base = OtherType, elements = Some []\<rparr>
     = Inr ''{}''"
  by (simp add: as_string_def as_string_iterable_eq)

text \<open>
  C3 as stated, for every iterable, fails on an iterable class that also has a member
  \<^verbatim>\<open>to_string\<close>: the earlier rung returns the member's string. Here the elements are the
  strings \<^verbatim>\<open>a\<close> and \<^verbatim>\<open>b\<close> and the member returns \<^verbatim>\<open>S\<close>.
\<close>

theorem as_string_container_with_member:
  "as_string (\<lambda>x d. []) True (\<lambda>e. e)
      \<lparr>std_to_string = None, to_string = Some ''S'', base = OtherType :: (string, 16 word) shape,
       elements = Some [''a'', ''b'']\<rparr>
     \<noteq> Inr (''{'' @ join_spec '', '' (map (\<lambda>e. e) [''a'', ''b'']) @ ''}'')"
  by (simp add: as_string_def)

text \<open>
  C6. For an optional of a stringifiable inner type, the result is the inner value's string
  when the optional is engaged and the literal \<^verbatim>\<open>nullopt\<close> when it is not.
\<close>

theorem as_string_optional_law:
  "as_string flt2str_div True elem_as_string
      \<lparr>std_to_string = None, to_string = None, base = Optional (Some v), elements = e\<rparr>
     = Inr (elem_as_string v)
   \<and> as_string flt2str_div True elem_as_string
      \<lparr>std_to_string = None, to_string = None, base = Optional None, elements = e\<rparr>
     = Inr ''nullopt''"
  by (simp add: as_string_def)

lemma strlen_terminated: "CHR 0x00 \<notin> set v \<Longrightarrow> strlen (v @ CHR 0x00 # rest) = Some (length v)"
  by (induction v) auto

text \<open>
  C8. The first matching rung wins, in the order: standard numeric conversion, member
  \<^verbatim>\<open>to_string\<close>, narrow string or narrow C-string copy. In particular a value that admits
  both \<^verbatim>\<open>std::to_string\<close> and a member \<^verbatim>\<open>to_string\<close> gets the result of \<^verbatim>\<open>std::to_string\<close>,
  whatever its member returns and whatever else its type is. A narrow C-string is given by
  the characters \<open>v\<close> before its terminator.
\<close>

theorem as_string_priority:
  "as_string flt2str_div ok elem_as_string
      \<lparr>std_to_string = Some s, to_string = t, base = b, elements = e\<rparr> = Inr s
   \<and> as_string flt2str_div ok elem_as_string
      \<lparr>std_to_string = None, to_string = Some u, base = b, elements = e\<rparr> = Inr u
   \<and> as_string flt2str_div ok elem_as_string
      \<lparr>std_to_string = None, to_string = None, base = NarrowString v, elements = e\<rparr> = Inr v
   \<and> (CHR 0x00 \<notin> set v \<longrightarrow>
        as_string flt2str_div ok elem_as_string
          \<lparr>std_to_string = None, to_string = None, base = NarrowCString (v @ CHR 0x00 # rest),
           elements = e\<rparr> = Inr v)"
  by (simp add: as_string_def strlen_terminated)

theorem as_string_priority_witness:
  "as_string (\<lambda>x d. []) True (\<lambda>e :: unit. [])
      \<lparr>std_to_string = Some ''7'', to_string = Some ''seven'',
       base = OtherType :: (unit, 16 word) shape, elements = None\<rparr> = Inr ''7''
   \<and> as_string (\<lambda>x d. []) True (\<lambda>e :: unit. [])
      \<lparr>std_to_string = None, to_string = None,
       base = NarrowCString (''ab'' @ CHR 0x00 # ''c'') :: (unit, 16 word) shape,
       elements = None\<rparr> = Inr ''ab''"
proof -
  have h: "CHR 0x00 \<notin> set ''ab''" by simp
  from as_string_priority [of "\<lambda>x d. []" True "\<lambda>e :: unit. []" "''7''" "Some ''seven''"
      "OtherType :: (unit, 16 word) shape" None _ "''ab''" "''c''"] h
  show ?thesis by blast
qed

lemma wcslen_terminated: "0 \<notin> set w \<Longrightarrow> wcslen (w @ 0 # rest) = Some (length w)"
  by (induction w) auto

lemma of_char_narrow: "of_char (narrow c) = unat c mod 256"
  by (simp add: narrow_def)

text \<open>
  C7. For a wide string \<open>w\<close>, and for a wide C-string whose code units before the
  terminator are \<open>w\<close>, the result has as many characters as \<open>w\<close> has code units, and each
  character is the code unit at the same position reduced modulo 256; nothing is decoded.
\<close>

theorem as_string_wide:
  "as_string flt2str_div ok elem_as_string
      \<lparr>std_to_string = None, to_string = None, base = WideString w, elements = e\<rparr>
     = Inr (map narrow w)
   \<and> (0 \<notin> set w \<longrightarrow>
        as_string flt2str_div ok elem_as_string
          \<lparr>std_to_string = None, to_string = None, base = WideCString (w @ 0 # rest),
           elements = e\<rparr>
          = Inr (map narrow w))
   \<and> length (map narrow w) = length w
   \<and> (of_char (narrow c) :: nat) = unat c mod 256"
  by (simp add: as_string_def wcslen_terminated of_char_narrow)

theorem as_string_wide_witness:
  "as_string (\<lambda>x d. []) True (\<lambda>e :: unit. [])
      \<lparr>std_to_string = None, to_string = None,
       base = WideCString ([0x41, 0x263A] @ 0 # [0x42 :: 16 word]), elements = None\<rparr>
     = Inr ''A:''"
proof -
  have h: "0 \<notin> set [0x41, 0x263A :: 16 word]" by simp
  have n: "map narrow [0x41, 0x263A :: 16 word] = ''A:''"
    by (simp add: narrow_def char_of_def bit_0)
  from as_string_wide [of "\<lambda>x d. []" True "\<lambda>e :: unit. []" "[0x41, 0x263A :: 16 word]" None
      "[0x42]"] h
  show ?thesis unfolding n by blast
qed

subsection \<open>\<^verbatim>\<open>as_string\<close>: durations\<close>

lemma select_unit_returns:
  "table \<noteq> [] \<Longrightarrow> snd (snd (last table)) \<Longrightarrow>
   \<exists>dur name is_last. (dur, name, is_last) \<in> set table
      \<and> select_unit f table x = Inr (f x dur @ name)"
proof (induction table)
  case Nil
  then show ?case by simp
next
  case (Cons e rest)
  obtain dur name is_last where e: "e = (dur, name, is_last)" by (cases e)
  show ?case
  proof (cases "is_last \<or> x > dur")
    case True
    then have "select_unit f (e # rest) x = Inr (f x dur @ name)" by (simp add: e)
    then show ?thesis using e by (intro exI [of _ dur] exI [of _ name] exI [of _ is_last]) simp
  next
    case False
    then have flag: "\<not> is_last" by simp
    with Cons.prems e have ne: "rest \<noteq> []" by auto
    with Cons.prems have "snd (snd (last rest))" by simp
    with Cons.IH ne obtain d n l where
      "(d, n, l) \<in> set rest" "select_unit f rest x = Inr (f x d @ n)"
      by blast
    with False e show ?thesis by (intro exI [of _ d] exI [of _ n] exI [of _ l]) simp
  qed
qed

lemma durations_last:
  "durations bits num den \<noteq> [] \<and> snd (snd (last (durations bits num den)))"
  by (simp add: durations_def unit_table_def)

text \<open>
  C10. The last entry of the table carries the flag, an entry with the flag is selected
  when the loop reaches it, and so for every duration value the loop returns a string from
  one of the table's entries: the \<^verbatim>\<open>unreachable()\<close> after the loop is never executed.
\<close>

theorem duration_loop_returns:
  "snd (snd (last (durations bits num den)))
   \<and> (\<exists>dur name is_last. (dur, name, is_last) \<in> set (durations bits num den)
         \<and> as_string_duration flt2str_div bits num den x = Inr (flt2str_div x dur @ name))
   \<and> as_string_duration flt2str_div bits num den x \<noteq> Inl Unreachable"
proof -
  have l: "durations bits num den \<noteq> []" "snd (snd (last (durations bits num den)))"
    using durations_last [of bits num den] by simp_all
  from select_unit_returns [OF l, of flt2str_div x]
  obtain dur name is_last where r: "(dur, name, is_last) \<in> set (durations bits num den)"
    "as_string_duration flt2str_div bits num den x = Inr (flt2str_div x dur @ name)"
    unfolding as_string_duration_def by blast
  then have "as_string_duration flt2str_div bits num den x \<noteq> Inl Unreachable" by simp
  with l(2) r show ?thesis by blast
qed

text \<open>
  The spec's wording for the choice of the unit: the coarsest unit of the table such that
  the value is strictly greater than one of that unit, converted to the value's ticks;
  nanoseconds if there is none.
\<close>

definition chosen_unit_spec :: "nat \<Rightarrow> nat \<Rightarrow> nat \<Rightarrow> int \<Rightarrow> int \<times> string" where
  "chosen_unit_spec bits num den x =
     (case filter (\<lambda>(dur, name, is_last). x > dur) (durations bits num den) of
        [] \<Rightarrow> (duration_cast_one bits num den (1, 1000000000), ''ns'')
      | (dur, name, is_last) # rest \<Rightarrow> (dur, name))"

lemma duration_unit_selection:
  "as_string_duration flt2str_div bits num den x =
     Inr (flt2str_div x (fst (chosen_unit_spec bits num den x))
          @ snd (chosen_unit_spec bits num den x))"
  by (simp add: as_string_duration_def chosen_unit_spec_def durations_def unit_table_def)

text \<open>
  The tables of \<^verbatim>\<open>std::chrono::milliseconds\<close> and \<^verbatim>\<open>std::chrono::seconds\<close> (64-bit
  representations), and of a nanosecond clock with a 32-bit representation, where one
  hour and one minute do not fit and are stored wrapped.
\<close>

lemma durations_ms:
  "durations 64 1 1000 =
     [(3600000, ''hrs'', False), (60000, ''min'', False), (1000, ''sec'', False),
      (1, ''ms'', False), (0, ''ns'', True)]"
  by (simp add: durations_def unit_table_def duration_cast_one_def to_rep_def)

lemma durations_sec:
  "durations 64 1 1 =
     [(3600, ''hrs'', False), (60, ''min'', False), (1, ''sec'', False),
      (0, ''ms'', False), (0, ''ns'', True)]"
  by (simp add: durations_def unit_table_def duration_cast_one_def to_rep_def)

lemma durations_ns32:
  "durations 32 1 1000000000 =
     [(817405952, ''hrs'', False), (- 129542144, ''min'', False), (1000000000, ''sec'', False),
      (1000000, ''ms'', False), (1, ''ns'', True)]"
  by (simp add: durations_def unit_table_def duration_cast_one_def to_rep_def)

lemma as_string_duration_ns32:
  "as_string_duration flt2str_div 32 1 1000000000 900000000
     = Inr (flt2str_div 900000000 817405952 @ ''hrs'')"
  unfolding as_string_duration_def durations_ns32 by simp

text \<open>
  C2, at \<^verbatim>\<open>std::chrono::milliseconds{ 1 }\<close> and \<^verbatim>\<open>std::chrono::seconds{ 1 }\<close>. One
  nanosecond is 0 ticks of a millisecond clock and one millisecond is 0 ticks of a second
  clock, so the unit that the loop selects has the count 0 and the source divides the
  value's count by 0. At \<^verbatim>\<open>milliseconds{ 1500 }\<close> the divisor is the 1000 ticks of one
  second.
\<close>

theorem as_string_duration_zero_divisor:
  "as_string_duration flt2str_div 64 1 1000 1 = Inr (flt2str_div 1 0 @ ''ns'')
   \<and> as_string_duration flt2str_div 64 1 1 1 = Inr (flt2str_div 1 0 @ ''ms'')
   \<and> as_string_duration flt2str_div 64 1 1000 1500 = Inr (flt2str_div 1500 1000 @ ''sec'')"
proof -
  have a: "as_string_duration flt2str_div 64 1 1000 1 = Inr (flt2str_div 1 0 @ ''ns'')"
    unfolding as_string_duration_def durations_ms by simp
  have b: "as_string_duration flt2str_div 64 1 1 1 = Inr (flt2str_div 1 0 @ ''ms'')"
    unfolding as_string_duration_def durations_sec by simp
  have c: "as_string_duration flt2str_div 64 1 1000 1500
             = Inr (flt2str_div 1500 1000 @ ''sec'')"
    unfolding as_string_duration_def durations_ms by simp
  from a b c show ?thesis by blast
qed

subsection \<open>\<^verbatim>\<open>hex\<close> and \<^verbatim>\<open>offset\<close>\<close>

text \<open>
  The spec's reading of a signed hexadecimal numeral: an optional minus sign, \<^verbatim>\<open>0x\<close>, and
  at least one lower-case hexadecimal digit; its value is an integer.
\<close>

definition hex_value :: "char \<Rightarrow> nat option" where
  "hex_value c = map_of (zip ''0123456789abcdef'' [0 ..< 16]) c"

definition parse_hex_digits :: "string \<Rightarrow> nat option" where
  "parse_hex_digits s =
     foldl (\<lambda>acc c. case (acc, hex_value c) of (Some a, Some d) \<Rightarrow> Some (16 * a + d) | _ \<Rightarrow> None)
       (Some 0) s"

definition parse_unsigned_hex :: "string \<Rightarrow> nat option" where
  "parse_unsigned_hex s =
     (if take 2 s = ''0x'' \<and> drop 2 s \<noteq> [] then parse_hex_digits (drop 2 s) else None)"

definition parse_signed_hex :: "string \<Rightarrow> int option" where
  "parse_signed_hex s =
     (if take 1 s = ''-'' then map_option (\<lambda>n. - int n) (parse_unsigned_hex (drop 1 s))
      else map_option int (parse_unsigned_hex s))"

definition strip_sign :: "string \<Rightarrow> string" where
  "strip_sign s = (if take 1 s = ''-'' then drop 1 s else s)"

lemma hex_value_digit: "d < 16 \<Longrightarrow> hex_value (hex_digit d) = Some d"
proof -
  assume "d < 16"
  then have mem: "d \<in> set [0 ..< 16]" by simp
  have "\<forall>k \<in> set [0 ..< 16]. hex_value (hex_digit k) = Some k"
    unfolding hex_value_def hex_digit_def by (simp add: upt_rec)
  with mem show ?thesis by blast
qed

lemma lowercase_hex_nonempty: "lowercase_hex n \<noteq> []"
  by (subst lowercase_hex.simps) simp

lemma parse_hex_digits_snoc:
  "parse_hex_digits (s @ [c]) =
     (case (parse_hex_digits s, hex_value c) of (Some a, Some d) \<Rightarrow> Some (16 * a + d) | _ \<Rightarrow> None)"
  by (simp add: parse_hex_digits_def)

lemma parse_lowercase_hex: "parse_hex_digits (lowercase_hex n) = Some n"
proof (induction n rule: lowercase_hex.induct)
  case (1 n)
  show ?case
  proof (cases "n < 16")
    case True
    then have "lowercase_hex n = [] @ [hex_digit n]" by (subst lowercase_hex.simps) simp
    then have "parse_hex_digits (lowercase_hex n)
        = (case (parse_hex_digits [], hex_value (hex_digit n)) of
             (Some a, Some d) \<Rightarrow> Some (16 * a + d) | _ \<Rightarrow> None)"
      by (simp only: parse_hex_digits_snoc)
    with True show ?thesis by (simp add: hex_value_digit parse_hex_digits_def)
  next
    case False
    then have "lowercase_hex n = lowercase_hex (n div 16) @ [hex_digit (n mod 16)]"
      by (subst lowercase_hex.simps) simp
    then have "parse_hex_digits (lowercase_hex n)
        = (case (parse_hex_digits (lowercase_hex (n div 16)), hex_value (hex_digit (n mod 16))) of
             (Some a, Some d) \<Rightarrow> Some (16 * a + d) | _ \<Rightarrow> None)"
      by (simp only: parse_hex_digits_snoc)
    with False "1.IH" show ?thesis by (simp add: hex_value_digit)
  qed
qed


lemma str_snprintf: "str fmt v = snprintf_llx fmt v"
  by (simp add: str_def fix_parameter_def Let_def)

lemma str_hex_formats:
  "str ''0x%llx'' v = ''0x'' @ lowercase_hex (unat v)"
  "str ''-0x%llx'' v = ''-0x'' @ lowercase_hex (unat v)"
  "str ''+ 0x%llx'' v = ''+ 0x'' @ lowercase_hex (unat v)"
  "str ''- 0x%llx'' v = ''- 0x'' @ lowercase_hex (unat v)"
  by (simp_all add: str_snprintf)

lemma unat_nonneg: "0 \<le> sint (v :: 64 word) \<Longrightarrow> unat v = nat (sint v)"
proof -
  assume nonneg: "0 \<le> sint v"
  have "sint v < 2 ^ 63" using sint_lt [of v] by simp
  then have small: "sint v < 2 ^ 64" by simp
  have "uint v = sint v mod 2 ^ 64" by (simp add: uint_sint take_bit_eq_mod)
  also have "\<dots> = sint v" using nonneg small by simp
  finally have "nat (uint v) = nat (sint v)" by simp
  then show ?thesis by (simp only: nat_uint_eq)
qed

lemma unat_neg: "sint (v :: 64 word) < 0 \<Longrightarrow> unat (- v) = nat (- sint v)"
proof -
  assume neg: "sint v < 0"
  have lo: "- (2 ^ 63) \<le> sint v" using sint_ge [of v] by simp
  have "uint (- v) = (- uint v) mod 2 ^ 64" by (simp add: uint_word_ariths)
  also have "uint v = sint v mod 2 ^ 64" by (simp add: uint_sint take_bit_eq_mod)
  also have "(- (sint v mod 2 ^ 64)) mod 2 ^ 64 = (- sint v) mod (2 ^ 64 :: int)"
    by (simp add: mod_minus_eq)
  also have "\<dots> = - sint v" using neg lo by simp
  finally have "nat (uint (- v)) = nat (- sint v)" by simp
  then show ?thesis by (simp only: nat_uint_eq)
qed

lemma neg_of_min: "sint (v :: 64 word) < 0 \<Longrightarrow> sint (- v) < 0 \<Longrightarrow> - v = v"
proof -
  assume a: "sint v < 0" and b: "sint (- v) < 0"
  have "unat (- v) = nat (- sint v)" using a by (rule unat_neg)
  then have e1: "uint (- v) = - sint v" using a by (simp flip: nat_uint_eq)
  have "uint (- v) = sint (- v) mod 2 ^ 64" by (simp add: uint_sint take_bit_eq_mod)
  also have "\<dots> = (sint (- v) + 2 ^ 64) mod 2 ^ 64" by simp
  also have "\<dots> = sint (- v) + 2 ^ 64"
    using b sint_ge [of "- v"] by (intro mod_pos_pos_trivial) simp_all
  finally have e2: "- sint v = sint (- v) + 2 ^ 64" using e1 by simp
  have "- (2 ^ 63) \<le> sint v" "- (2 ^ 63) \<le> sint (- v)"
    using sint_ge [of v] sint_ge [of "- v"] by simp_all
  with e2 have "sint (- v) = sint v" by simp
  then show ?thesis by (rule signed_word_eqI)
qed

lemma parse_signed_0x:
  "parse_signed_hex (CHR ''0'' # CHR ''x'' # lowercase_hex n) = Some (int n)"
  "parse_signed_hex (CHR ''-'' # CHR ''0'' # CHR ''x'' # lowercase_hex n) = Some (- int n)"
  by (simp_all add: parse_signed_hex_def parse_unsigned_hex_def lowercase_hex_nonempty
      parse_lowercase_hex)

lemma hex_unfold:
  "hex is_signed v =
     (if is_signed \<and> sint v < 0 then ''-0x'' @ lowercase_hex (unat (- v))
      else ''0x'' @ lowercase_hex (unat v))"
  by (simp add: hex_def str_hex_formats)

text \<open>
  C5. \<open>hex\<close> writes \<^verbatim>\<open>0x\<close> and the lower-case hexadecimal digits of the value, without
  padding, for an unsigned value and for a signed value that is not negative; for a
  negative signed value it writes \<^verbatim>\<open>-0x\<close> and the digits of the magnitude. Read back as a
  signed hexadecimal numeral, the output is the value.
\<close>

theorem hex_round_trip:
  "hex False n = ''0x'' @ lowercase_hex (unat n)
   \<and> hex True n = (if 0 \<le> sint n then ''0x'' @ lowercase_hex (nat (sint n))
                   else ''-0x'' @ lowercase_hex (nat \<bar>sint n\<bar>))
   \<and> parse_signed_hex (hex False n) = Some (uint n)
   \<and> parse_signed_hex (hex True n) = Some (sint n)"
proof -
  have u: "hex False n = ''0x'' @ lowercase_hex (unat n)"
    by (simp add: hex_unfold)
  have s: "hex True n = (if 0 \<le> sint n then ''0x'' @ lowercase_hex (nat (sint n))
                   else ''-0x'' @ lowercase_hex (nat \<bar>sint n\<bar>))"
    by (simp add: hex_unfold unat_nonneg unat_neg)
  have pu: "parse_signed_hex (hex False n) = Some (uint n)"
    unfolding u by (simp add: parse_signed_0x)
  have ps: "parse_signed_hex (hex True n) = Some (sint n)"
    unfolding s by (simp add: parse_signed_0x)
  from u s pu ps show ?thesis by blast
qed

text \<open>The concrete scenarios of the spec.\<close>

lemma lowercase_hex_scenarios:
  "lowercase_hex 16 = ''10''" "lowercase_hex 255 = ''ff''"
proof -
  have one: "lowercase_hex 1 = ''1''"
    by (subst lowercase_hex.simps) (simp add: hex_digit_def)
  have f: "lowercase_hex 15 = ''f''"
    by (subst lowercase_hex.simps) (simp add: hex_digit_def)
  have d16: "(16 :: nat) div 16 = 1" "(255 :: nat) div 16 = 15" by simp_all
  show "lowercase_hex 16 = ''10''"
    by (subst lowercase_hex.simps) (simp add: d16 one hex_digit_def del: One_nat_def)
  show "lowercase_hex 255 = ''ff''"
    by (subst lowercase_hex.simps) (simp add: d16 f hex_digit_def)
qed

lemma hex_offset_scenarios:
  "hex True (- 255) = ''-0xff''" "hex False 255 = ''0xff''"
  "offset 0 = ''+ 0x0''" "offset (- 16) = ''- 0x10''"
  by (simp_all add: hex_def offset_def str_hex_formats lowercase_hex_scenarios
      lowercase_hex.simps [of 0] hex_digit_def)

lemma hex_digit_zero: "d < 16 \<Longrightarrow> hex_digit d = CHR ''0'' \<longleftrightarrow> d = 0"
proof -
  assume "d < 16"
  then have mem: "d \<in> set [0 ..< 16]" by simp
  have "\<forall>k \<in> set [0 ..< 16]. (hex_digit k = CHR ''0'') = (k = 0)"
    unfolding hex_digit_def by (simp add: upt_rec)
  with mem show ?thesis by blast
qed

lemma hd_lowercase_hex: "hd (lowercase_hex n) = CHR ''0'' \<longleftrightarrow> n = 0"
proof (induction n rule: lowercase_hex.induct)
  case (1 n)
  show ?case
  proof (cases "n < 16")
    case True
    then have "lowercase_hex n = [hex_digit n]" by (subst lowercase_hex.simps) simp
    with True show ?thesis by (simp add: hex_digit_zero)
  next
    case False
    then have "lowercase_hex n = lowercase_hex (n div 16) @ [hex_digit (n mod 16)]"
      by (subst lowercase_hex.simps) simp
    then have "hd (lowercase_hex n) = hd (lowercase_hex (n div 16))"
      by (simp add: lowercase_hex_nonempty)
    moreover from False have "n div 16 \<noteq> 0" "n \<noteq> 0" by simp_all
    ultimately show ?thesis using "1.IH" False by simp
  qed
qed

lemma lowercase_hex_zero: "lowercase_hex 0 = ''0''"
  by (subst lowercase_hex.simps) (simp add: hex_digit_def)

text \<open>
  C4. \<open>offset n\<close> begins with plus and a space exactly when \<open>n\<close> is not negative and with
  minus and a space exactly when it is. What follows the two characters reads, as an
  unsigned hexadecimal numeral (\<^verbatim>\<open>0x\<close> and at least one lower-case digit), as the magnitude
  of \<open>n\<close>, and its digits are not padded: a leading zero digit is the only digit. It is the
  output of the \<^verbatim>\<open>%llx\<close> conversion at the magnitude, and it is \<open>hex\<close> of the magnitude
  without its sign.
\<close>

theorem offset_sign_law:
  "(take 2 (offset n) = ''+ '' \<longleftrightarrow> 0 \<le> sint n)
   \<and> (take 2 (offset n) = ''- '' \<longleftrightarrow> sint n < 0)
   \<and> parse_unsigned_hex (drop 2 (offset n)) = Some (nat \<bar>sint n\<bar>)
   \<and> (hd (drop 4 (offset n)) = CHR ''0'' \<longrightarrow> drop 4 (offset n) = ''0'')
   \<and> drop 2 (offset n) = ''0x'' @ lowercase_hex (nat \<bar>sint n\<bar>)
   \<and> drop 2 (offset n) = strip_sign (hex True (if sint n < 0 then - n else n))"
proof -
  let ?m = "nat \<bar>sint n\<bar>"
  have off: "offset n = (if 0 \<le> sint n then ''+ '' else ''- '') @ ''0x'' @ lowercase_hex ?m"
    by (simp add: offset_def str_hex_formats unat_nonneg unat_neg)
  have mag: "strip_sign (hex True (if sint n < 0 then - n else n)) = ''0x'' @ lowercase_hex ?m"
  proof (cases "sint n < 0")
    case False
    then show ?thesis by (simp add: hex_unfold strip_sign_def unat_nonneg)
  next
    case neg: True
    show ?thesis
    proof (cases "sint (- n) < 0")
      case True
      with neg have e: "- n = n" by (rule neg_of_min)
      have "unat n = nat (- sint n)" using unat_neg [OF neg] unfolding e .
      with neg True show ?thesis by (simp add: hex_unfold strip_sign_def)
    next
      case False
      with neg show ?thesis by (simp add: hex_unfold strip_sign_def unat_neg)
    qed
  qed
  have d2: "drop 2 (offset n) = ''0x'' @ lowercase_hex ?m" by (simp add: off)
  then have d4: "drop 4 (offset n) = lowercase_hex ?m"
    by (metis drop_drop add_2_eq_Suc' append_Cons append_Nil drop_Suc_Cons drop0 numeral_Bit0)
  have parse: "parse_unsigned_hex (drop 2 (offset n)) = Some ?m"
    unfolding d2 by (simp add: parse_unsigned_hex_def lowercase_hex_nonempty parse_lowercase_hex)
  have pad: "drop 4 (offset n) = ''0''" if "hd (drop 4 (offset n)) = CHR ''0''"
  proof -
    from that have "?m = 0" unfolding d4 by (simp only: hd_lowercase_hex)
    then show ?thesis unfolding d4 by (simp only: lowercase_hex_zero)
  qed
  have signs: "(take 2 (offset n) = ''+ '' \<longleftrightarrow> 0 \<le> sint n)
       \<and> (take 2 (offset n) = ''- '' \<longleftrightarrow> sint n < 0)"
    by (simp add: off)
  from signs parse pad d2 mag show ?thesis by simp
qed

theorem offset_sign_law_witness:
  "offset 0 = ''+ 0x0'' \<and> hd (drop 4 (offset 0)) = CHR ''0'' \<and> drop 4 (offset 0) = ''0''"
proof -
  have e: "offset 0 = ''+ 0x0''"
    by (simp add: offset_def str_hex_formats lowercase_hex_zero)
  then have h: "hd (drop 4 (offset 0)) = CHR ''0''" by simp
  with offset_sign_law [of 0] have "drop 4 (offset 0) = ''0''" by blast
  with e h show ?thesis by simp
qed

end
